theory Spec2Isabelle
  imports Main "HOL-Library.Char_ord" "HOL-Library.List_Lexorder"
begin

section \<open>Ordered maps (\<open>std::map\<close>)\<close>

text \<open>
  Both programs keep their tables in \<open>std::map<string, T>\<close>. Such a map is modelled as an
  association list; \<open>cmap_put\<close> inserts at the position the key order gives, so that
  walking the list is the iteration order of the C++ container (ascending keys, byte-wise
  lexicographic on \<open>std::string\<close>).
\<close>

type_synonym ('k, 'v) cmap = "('k \<times> 'v) list"

text \<open>\<open>m.find(k)\<close>: the mapped value, or \<open>None\<close> for \<open>m.end()\<close>.\<close>

definition cmap_find :: "'k \<Rightarrow> ('k, 'v) cmap \<Rightarrow> 'v option" where
  "cmap_find k m = map_of m k"

text \<open>\<open>m[k] = v\<close>: overwrite the entry of \<open>k\<close>, or insert a new one in key order.\<close>

fun cmap_put :: "'k::linorder \<Rightarrow> 'v \<Rightarrow> ('k, 'v) cmap \<Rightarrow> ('k, 'v) cmap" where
  "cmap_put k v [] = [(k, v)]"
| "cmap_put k v ((k', v') # m) =
     (if k < k' then (k, v) # (k', v') # m
      else if k = k' then (k, v) # m
      else (k', v') # cmap_put k v m)"

text \<open>\<open>m.erase(k)\<close>.\<close>

definition cmap_erase :: "'k \<Rightarrow> ('k, 'v) cmap \<Rightarrow> ('k, 'v) cmap" where
  "cmap_erase k m = filter (\<lambda>kv. fst kv \<noteq> k) m"

text \<open>\<open>m[k]\<close> used only for its side effect: a missing key gets a default value.\<close>

definition cmap_touch :: "'k::linorder \<Rightarrow> 'v \<Rightarrow> ('k, 'v) cmap \<Rightarrow> ('k, 'v) cmap" where
  "cmap_touch k dflt m = (case cmap_find k m of None \<Rightarrow> cmap_put k dflt m | Some _ \<Rightarrow> m)"

section \<open>Identifiers and clocks\<close>

text \<open>
  \<open>newUUID()\<close> draws from \<open>uuid_generate\<close>, an external source of randomness. The model
  takes the sequence of identifiers the library hands out as a parameter
  \<open>gen :: nat \<Rightarrow> string\<close>; each service counts the draws it has made. The reading of
  \<open>chrono::system_clock::now()\<close> is an argument of the operation that takes it.
  A \<open>time_point\<close> is its tick count, an integer; the programs only compare time points.
\<close>

type_synonym time_point = int

section \<open>meetingScheduler.cpp\<close>

subsection \<open>Domain models\<close>

record Room =
  room_id :: string
  capacity :: int

record Booking =
  b_id :: string
  b_roomId :: string
  b_start :: time_point
  b_end :: time_point
  b_attendees :: "string list"

subsection \<open>Repositories\<close>

text \<open>
  \<open>RoomRepository\<close> holds \<open>vector<Room> rooms_\<close>; \<open>BookingRepository\<close> holds
  \<open>map<string, Booking> bookings_\<close>. Their member functions are declared in the source
  without bodies.
\<close>

type_synonym RoomRepository = "Room list"

type_synonym BookingRepository = "(string, Booking) cmap"

text \<open>
  Modelled from the spec: \<open>RoomRepository::findByCapacity\<close> has no body in the source.
  The spec's \<open>findByCapacity(minCap)\<close> returns all resources of capacity at least
  \<open>minCap\<close>, in the order of the catalog.
\<close>

definition findByCapacity :: "int \<Rightarrow> RoomRepository \<Rightarrow> Room list" where
  "findByCapacity cap rooms = filter (\<lambda>r. cap \<le> capacity r) rooms"

text \<open>
  Modelled from the spec: \<open>BookingRepository::save\<close> has no body in the source. The
  spec's store saves a reservation under its id (\<open>save(reservation)\<close>); the parking
  lot's repository of the same name does \<open>bookings_[b.id] = b\<close>.
\<close>

definition save :: "Booking \<Rightarrow> BookingRepository \<Rightarrow> BookingRepository" where
  "save b repo = cmap_put (b_id b) b repo"

text \<open>
  Modelled from the spec: \<open>BookingRepository::findById\<close> has no body in the source. The
  spec's \<open>findById(id)\<close> is the reservation stored under the id, or nothing.
\<close>

definition findById :: "string \<Rightarrow> BookingRepository \<Rightarrow> Booking option" where
  "findById bid repo = cmap_find bid repo"

text \<open>
  Modelled from the spec: \<open>BookingRepository::remove\<close> has no body in the source. The
  spec's \<open>remove(id)\<close> deletes the reservation stored under the id, if there is one.
\<close>

definition remove :: "string \<Rightarrow> BookingRepository \<Rightarrow> BookingRepository" where
  "remove bid repo = cmap_erase bid repo"

text \<open>
  Modelled from the spec: \<open>CalendarService::toDate\<close> has no body in the source. It maps a
  time point to its calendar date; with time points counted in seconds the date is the
  day number.
\<close>

definition toDate :: "time_point \<Rightarrow> int" where
  "toDate t = t div 86400"

text \<open>
  Modelled from the spec: \<open>BookingRepository::findByRoomAndDay\<close> has no body in the
  source. The spec's \<open>findByResourceAndWindow(resourceId, day)\<close> lists the reservations
  of a resource for a day: the stored bookings of that room that start on that date.
\<close>

definition findByRoomAndDay :: "string \<Rightarrow> int \<Rightarrow> BookingRepository \<Rightarrow> Booking list" where
  "findByRoomAndDay roomId date repo =
     filter (\<lambda>b. b_roomId b = roomId \<and> toDate (b_start b) = date) (map snd repo)"

subsection \<open>CalendarService\<close>

text \<open>\<open>return !(b.end <= a.start || b.start >= a.end);\<close>\<close>

definition overlaps :: "Booking \<Rightarrow> Booking \<Rightarrow> bool" where
  "overlaps a b = (\<not> (b_end b \<le> b_start a \<or> b_start b \<ge> b_end a))"

text \<open>The loop of \<open>isFree\<close>: the first overlapping entry answers \<open>false\<close>.\<close>

fun isFree_loop :: "Booking list \<Rightarrow> Booking \<Rightarrow> bool" where
  "isFree_loop [] b = True"
| "isFree_loop (ex # rest) b = (if overlaps ex b then False else isFree_loop rest b)"

text \<open>The repository argument is the calendar's own \<open>repo_\<close>.\<close>

definition isFree :: "string \<Rightarrow> Booking \<Rightarrow> BookingRepository \<Rightarrow> bool" where
  "isFree roomId b repo =
     (let day = toDate (b_start b) in isFree_loop (findByRoomAndDay roomId day repo) b)"

definition addEntry :: "Booking \<Rightarrow> BookingRepository \<Rightarrow> BookingRepository" where
  "addEntry b repo = save b repo"

definition removeEntry :: "string \<Rightarrow> BookingRepository \<Rightarrow> BookingRepository" where
  "removeEntry bookingId repo = remove bookingId repo"

subsection \<open>Room allocation strategy\<close>

text \<open>
  \<open>SmallestFitStrategy::select\<close>: the loop keeps the best room so far and replaces it
  only by a room of strictly smaller capacity.
\<close>

fun select_loop :: "Room list \<Rightarrow> int \<Rightarrow> Room option \<Rightarrow> Room option" where
  "select_loop [] cap best = best"
| "select_loop (r # rooms) cap best =
     (if capacity r \<ge> cap \<and> (case best of None \<Rightarrow> True | Some b \<Rightarrow> capacity r < capacity b)
      then select_loop rooms cap (Some r)
      else select_loop rooms cap best)"

definition select :: "Room list \<Rightarrow> int \<Rightarrow> Room option" where
  "select rooms cap = select_loop rooms cap None"

subsection \<open>MeetingService\<close>

text \<open>
  The state a \<open>MeetingService\<close> works on: the room repository \<open>rr_\<close>, the booking
  repository \<open>br_\<close>, the repository \<open>repo_\<close> inside the \<open>CalendarService\<close> singleton, the
  per-room mutexes and the number of identifiers drawn. A mutex carries no data from
  one call to the next in a sequential run (each \<open>unique_lock\<close> is released when its
  call returns), so only the keys of \<open>mutexes_\<close> are state.
\<close>

record MeetingState =
  rr :: RoomRepository
  br :: BookingRepository
  cal_repo :: BookingRepository
  room_mutexes :: "(string, unit) cmap"
  uuids_drawn :: nat

text \<open>
  \<open>req.attendees.size()\<close> is a \<open>size_t\<close> passed where the callee takes \<open>int\<close>: the value
  is reduced to 32 bits, two's complement.
\<close>

definition size_to_int :: "nat \<Rightarrow> int" where
  "size_to_int n =
     (let m = int n mod 2 ^ 32 in if m < 2 ^ 31 then m else m - 2 ^ 32)"

text \<open>
  \<open>bookMeeting\<close>; \<open>strat\<close> is the injected \<open>IRoomStrategy\<close>. The \<open>Booking\<close> is built
  (and its identifier drawn) before the room's mutex is taken; both early returns leave
  the repositories as they were.
\<close>

definition bookMeeting ::
  "(nat \<Rightarrow> string) \<Rightarrow> (Room list \<Rightarrow> int \<Rightarrow> Room option) \<Rightarrow> Booking \<Rightarrow> MeetingState
     \<Rightarrow> string option \<times> MeetingState" where
  "bookMeeting gen strat req st =
     (let rooms = findByCapacity (size_to_int (length (b_attendees req))) (rr st);
          room = strat rooms (size_to_int (length (b_attendees req)))
      in case room of
           None \<Rightarrow> (None, st)
         | Some r \<Rightarrow>
             (let b = req\<lparr>b_roomId := room_id r, b_id := gen (uuids_drawn st)\<rparr>;
                  st1 = st\<lparr>uuids_drawn := Suc (uuids_drawn st),
                           room_mutexes := cmap_touch (b_roomId b) () (room_mutexes st)\<rparr>
              in if \<not> isFree (b_roomId b) b (cal_repo st1) then (None, st1)
                 else (Some (b_id b),
                       st1\<lparr>br := save b (br st1),
                           cal_repo := addEntry b (cal_repo st1)\<rparr>)))"

definition cancelMeeting :: "string \<Rightarrow> MeetingState \<Rightarrow> bool \<times> MeetingState" where
  "cancelMeeting bid st =
     (case findById bid (br st) of
        None \<Rightarrow> (False, st)
      | Some b \<Rightarrow>
          (True, st\<lparr>br := remove bid (br st),
                    cal_repo := removeEntry bid (cal_repo st)\<rparr>))"

text \<open>A run of the service: a list of calls, applied in order.\<close>

datatype meeting_call = BookMeeting Booking | CancelMeeting string

fun meeting_step ::
  "(nat \<Rightarrow> string) \<Rightarrow> (Room list \<Rightarrow> int \<Rightarrow> Room option) \<Rightarrow> MeetingState \<Rightarrow> meeting_call
     \<Rightarrow> MeetingState" where
  "meeting_step gen strat st (BookMeeting req) = snd (bookMeeting gen strat req st)"
| "meeting_step gen strat st (CancelMeeting bid) = snd (cancelMeeting bid st)"

definition meeting_run ::
  "(nat \<Rightarrow> string) \<Rightarrow> (Room list \<Rightarrow> int \<Rightarrow> Room option) \<Rightarrow> meeting_call list \<Rightarrow> MeetingState
     \<Rightarrow> MeetingState" where
  "meeting_run gen strat calls st = foldl (meeting_step gen strat) st calls"

text \<open>The service over a given room catalog, with nothing booked yet.\<close>

definition meeting_init :: "RoomRepository \<Rightarrow> MeetingState" where
  "meeting_init rooms =
     \<lparr>rr = rooms, br = [], cal_repo = [], room_mutexes = [], uuids_drawn = 0\<rparr>"

section \<open>parkingLot.cpp\<close>

subsection \<open>Data models\<close>

text \<open>
  \<open>enum class SpotType { Motorcycle, Compact, Large }\<close>: the first constructor is named
  \<open>MotorcycleSpot\<close> here, \<open>Motorcycle\<close> being the vehicle type.
\<close>

datatype VehicleType = Motorcycle | Car | Truck

datatype SpotType = MotorcycleSpot | Compact | Large

record ParkingLot =
  lot_id :: string
  numLevels :: int

record ParkingFloor =
  floor_id :: string
  lotId :: string
  level :: int

record ParkingSpot =
  spot_id :: string
  floorId :: string
  spot_type :: SpotType

text \<open>The parking lot's \<open>Booking\<close>; \<open>pb_end\<close> is the optional leave time.\<close>

record ParkingBooking =
  pb_id :: string
  pb_spotId :: string
  pb_vehicleId :: string
  pb_vehicleType :: VehicleType
  pb_start :: time_point
  pb_end :: "time_point option"

text \<open>What \<open>bookings_[k]\<close> inserts for a missing key: a value-initialised \<open>Booking\<close>.\<close>

definition default_Booking :: ParkingBooking where
  "default_Booking =
     \<lparr>pb_id = [], pb_spotId = [], pb_vehicleId = [], pb_vehicleType = Motorcycle,
      pb_start = 0, pb_end = None\<rparr>"

subsection \<open>Repositories\<close>

text \<open>The parking lot's \<open>BookingRepository\<close>: \<open>bookings_\<close> and \<open>vehicleIndex_\<close>.\<close>

record ParkingBookingRepository =
  bookings :: "(string, ParkingBooking) cmap"
  vehicleIndex :: "(string, string) cmap"

definition park_save :: "ParkingBooking \<Rightarrow> ParkingBookingRepository \<Rightarrow> ParkingBookingRepository" where
  "park_save b repo =
     repo\<lparr>bookings := cmap_put (pb_id b) b (bookings repo),
          vehicleIndex := cmap_put (pb_vehicleId b) (pb_id b) (vehicleIndex repo)\<rparr>"

text \<open>
  \<open>findByVehicle\<close> returns \<open>bookings_[it->second]\<close>: when the index names a booking id
  that \<open>bookings_\<close> does not hold, \<open>operator[]\<close> inserts a default \<open>Booking\<close> under it,
  so the repository is part of the result.
\<close>

definition findByVehicle ::
  "string \<Rightarrow> ParkingBookingRepository \<Rightarrow> ParkingBooking option \<times> ParkingBookingRepository" where
  "findByVehicle vehicleId repo =
     (case cmap_find vehicleId (vehicleIndex repo) of
        None \<Rightarrow> (None, repo)
      | Some bid \<Rightarrow>
          (case cmap_find bid (bookings repo) of
             Some b \<Rightarrow> (Some b, repo)
           | None \<Rightarrow> (Some default_Booking,
                      repo\<lparr>bookings := cmap_put bid default_Booking (bookings repo)\<rparr>)))"

definition park_remove :: "string \<Rightarrow> ParkingBookingRepository \<Rightarrow> ParkingBookingRepository" where
  "park_remove bookingId repo =
     (case cmap_find bookingId (bookings repo) of
        None \<Rightarrow> repo
      | Some b \<Rightarrow>
          repo\<lparr>vehicleIndex := cmap_erase (pb_vehicleId b) (vehicleIndex repo),
               bookings := cmap_erase bookingId (bookings repo)\<rparr>)"

subsection \<open>ParkingService\<close>

text \<open>
  The state of a \<open>ParkingService\<close>: the four repositories, the per-spot mutexes (their
  keys, in key order: in a sequential run every \<open>try_to_lock\<close> succeeds and the lock is
  released when the loop body is left) and the number of identifiers drawn.
\<close>

record ParkingState =
  lots :: "(string, ParkingLot) cmap"
  floors :: "(string, ParkingFloor) cmap"
  spots :: "(string, ParkingSpot) cmap"
  bookingRepo :: ParkingBookingRepository
  mutexes :: "(string, unit) cmap"
  ids_drawn :: nat

definition parking_init :: ParkingState where
  "parking_init =
     \<lparr>lots = [], floors = [], spots = [],
      bookingRepo = \<lparr>bookings = [], vehicleIndex = []\<rparr>, mutexes = [], ids_drawn = 0\<rparr>"

text \<open>The innermost loop of \<open>createParkingLot\<close>: \<open>count\<close> spots of one type on one floor.\<close>

fun create_spots ::
  "(nat \<Rightarrow> string) \<Rightarrow> string \<Rightarrow> SpotType \<Rightarrow> nat \<Rightarrow> ParkingState \<Rightarrow> ParkingState" where
  "create_spots gen fid ty 0 st = st"
| "create_spots gen fid ty (Suc n) st =
     (let spotId = gen (ids_drawn st)
      in create_spots gen fid ty n
           (st\<lparr>ids_drawn := Suc (ids_drawn st),
               spots := cmap_put spotId \<lparr>spot_id = spotId, floorId = fid, spot_type = ty\<rparr> (spots st),
               mutexes := cmap_touch spotId () (mutexes st)\<rparr>))"

text \<open>
  The loop over \<open>spotTypeCounts\<close>, a \<open>map<SpotType,int>\<close>, given as its entries in
  iteration order; a count that is not positive creates nothing.
\<close>

fun create_types ::
  "(nat \<Rightarrow> string) \<Rightarrow> string \<Rightarrow> (SpotType \<times> int) list \<Rightarrow> ParkingState \<Rightarrow> ParkingState" where
  "create_types gen fid [] st = st"
| "create_types gen fid ((ty, count) # rest) st =
     create_types gen fid rest (create_spots gen fid ty (nat count) st)"

text \<open>The loop over the levels: \<open>n\<close> levels remain, the next one is \<open>lvl\<close>.\<close>

fun create_levels ::
  "(nat \<Rightarrow> string) \<Rightarrow> string \<Rightarrow> (SpotType \<times> int) list \<Rightarrow> int \<Rightarrow> nat \<Rightarrow> ParkingState
     \<Rightarrow> ParkingState" where
  "create_levels gen lid counts lvl 0 st = st"
| "create_levels gen lid counts lvl (Suc n) st =
     (let fid = gen (ids_drawn st);
          st1 = st\<lparr>ids_drawn := Suc (ids_drawn st),
                   floors := cmap_put fid \<lparr>floor_id = fid, lotId = lid, level = lvl\<rparr> (floors st)\<rparr>
      in create_levels gen lid counts (lvl + 1) n (create_types gen fid counts st1))"

definition createParkingLot ::
  "(nat \<Rightarrow> string) \<Rightarrow> int \<Rightarrow> int \<Rightarrow> (SpotType \<times> int) list \<Rightarrow> ParkingState
     \<Rightarrow> string \<times> ParkingState" where
  "createParkingLot gen levels spotsPerLevel spotTypeCounts st =
     (let lid = gen (ids_drawn st);
          st1 = st\<lparr>ids_drawn := Suc (ids_drawn st),
                   lots := cmap_put lid \<lparr>lot_id = lid, numLevels = levels\<rparr> (lots st)\<rparr>
      in (lid, create_levels gen lid spotTypeCounts 1 (nat levels) st1))"

text \<open>
  \<open>isOccupied\<close> looks up the vehicle with the empty id, drops the answer and returns
  \<open>false\<close>.
\<close>

definition isOccupied :: "string \<Rightarrow> ParkingState \<Rightarrow> bool \<times> ParkingState" where
  "isOccupied spotId st =
     (let (all, repo) = findByVehicle [] (bookingRepo st)
      in (False, st\<lparr>bookingRepo := repo\<rparr>))"

fun fits :: "VehicleType \<Rightarrow> SpotType \<Rightarrow> bool" where
  "fits Motorcycle s = True"
| "fits Car s = (s = Compact \<or> s = Large)"
| "fits Truck s = (s = Large)"

text \<open>The loop of \<open>parkVehicle\<close> over the entries of \<open>mutexes_\<close>.\<close>

fun park_loop ::
  "(nat \<Rightarrow> string) \<Rightarrow> string \<Rightarrow> VehicleType \<Rightarrow> time_point \<Rightarrow> (string, unit) cmap
     \<Rightarrow> ParkingState \<Rightarrow> string option \<times> ParkingState" where
  "park_loop gen vehicleId vt now [] st = (None, st)"
| "park_loop gen vehicleId vt now ((spotId, mtx) # rest) st =
     (case isOccupied spotId st of
        (True, st1) \<Rightarrow> park_loop gen vehicleId vt now rest st1
      | (False, st1) \<Rightarrow>
          (case cmap_find spotId (spots st1) of
             None \<Rightarrow> park_loop gen vehicleId vt now rest st1
           | Some sp \<Rightarrow>
               if \<not> fits vt (spot_type sp) then park_loop gen vehicleId vt now rest st1
               else
                 (let b = \<lparr>pb_id = gen (ids_drawn st1), pb_spotId = spotId,
                           pb_vehicleId = vehicleId, pb_vehicleType = vt,
                           pb_start = now, pb_end = None\<rparr>
                  in (Some (pb_id b),
                      st1\<lparr>ids_drawn := Suc (ids_drawn st1),
                          bookingRepo := park_save b (bookingRepo st1)\<rparr>))))"

definition parkVehicle ::
  "(nat \<Rightarrow> string) \<Rightarrow> string \<Rightarrow> VehicleType \<Rightarrow> time_point \<Rightarrow> ParkingState
     \<Rightarrow> string option \<times> ParkingState" where
  "parkVehicle gen vehicleId vt now st = park_loop gen vehicleId vt now (mutexes st) st"

text \<open>
  \<open>leaveVehicle\<close>: the leave time \<open>now\<close> is written to the local copy \<open>b\<close> only; the
  repository is asked to remove the booking.
\<close>

definition leaveVehicle :: "string \<Rightarrow> time_point \<Rightarrow> ParkingState \<Rightarrow> bool \<times> ParkingState" where
  "leaveVehicle vehicleId now st =
     (case findByVehicle vehicleId (bookingRepo st) of
        (None, repo) \<Rightarrow> (False, st\<lparr>bookingRepo := repo\<rparr>)
      | (Some b0, repo) \<Rightarrow>
          (let b = b0\<lparr>pb_end := Some now\<rparr>
           in (True, st\<lparr>bookingRepo := park_remove (pb_id b) repo\<rparr>)))"

text \<open>
  \<open>getAvailableSpots\<close>: \<open>findById(spotId).value()\<close> throws for a spot id the spot
  repository does not hold; the result is then \<open>None\<close>.
\<close>

fun available_loop ::
  "VehicleType \<Rightarrow> (string, unit) cmap \<Rightarrow> string list \<Rightarrow> ParkingState
     \<Rightarrow> string list option \<times> ParkingState" where
  "available_loop vt [] res st = (Some res, st)"
| "available_loop vt ((spotId, mtx) # rest) res st =
     (case isOccupied spotId st of
        (True, st1) \<Rightarrow> available_loop vt rest res st1
      | (False, st1) \<Rightarrow>
          (case cmap_find spotId (spots st1) of
             None \<Rightarrow> (None, st1)
           | Some sp \<Rightarrow>
               if fits vt (spot_type sp) then available_loop vt rest (res @ [spotId]) st1
               else available_loop vt rest res st1))"

definition getAvailableSpots ::
  "VehicleType \<Rightarrow> ParkingState \<Rightarrow> string list option \<times> ParkingState" where
  "getAvailableSpots vt st = available_loop vt (mutexes st) [] st"

text \<open>
  A run of the parking service: calls of its public member functions, applied in order,
  each with the clock reading it takes.
\<close>

datatype parking_call =
  CreateParkingLot int int "(SpotType \<times> int) list"
| ParkVehicle string VehicleType time_point
| LeaveVehicle string time_point
| GetAvailableSpots VehicleType

fun parking_step :: "(nat \<Rightarrow> string) \<Rightarrow> ParkingState \<Rightarrow> parking_call \<Rightarrow> ParkingState" where
  "parking_step gen st (CreateParkingLot levels spotsPerLevel counts) =
     snd (createParkingLot gen levels spotsPerLevel counts st)"
| "parking_step gen st (ParkVehicle v vt now) = snd (parkVehicle gen v vt now st)"
| "parking_step gen st (LeaveVehicle v now) = snd (leaveVehicle v now st)"
| "parking_step gen st (GetAvailableSpots vt) = snd (getAvailableSpots vt st)"

definition parking_run ::
  "(nat \<Rightarrow> string) \<Rightarrow> parking_call list \<Rightarrow> ParkingState \<Rightarrow> ParkingState" where
  "parking_run gen calls st = foldl (parking_step gen) st calls"

text \<open>The active bookings of a spot: stored, for that spot, with no leave time.\<close>

definition active_bookings :: "string \<Rightarrow> ParkingState \<Rightarrow> ParkingBooking list" where
  "active_bookings spotId st =
     filter (\<lambda>b. pb_spotId b = spotId \<and> pb_end b = None) (map snd (bookings (bookingRepo st)))"

section \<open>Sample data\<close>

text \<open>An identifier sequence with one fresh string per draw, a room and a request.\<close>

definition sample_ids :: "nat \<Rightarrow> string" where
  "sample_ids n = ''id'' @ replicate n (CHR ''+'')"

definition sample_room :: Room where
  "sample_room = \<lparr>room_id = ''R'', capacity = 1\<rparr>"

definition sample_request :: "time_point \<Rightarrow> time_point \<Rightarrow> Booking" where
  "sample_request s e =
     \<lparr>b_id = [], b_roomId = [], b_start = s, b_end = e, b_attendees = [''ann'']\<rparr>"

section \<open>Notions used in the properties\<close>

text \<open>
  No two entries of a meeting repository, under different ids, for the same room and
  starting on the same date, overlap.
\<close>

definition same_day_disjoint :: "BookingRepository \<Rightarrow> bool" where
  "same_day_disjoint repo \<longleftrightarrow>
     (\<forall>e\<in>set repo. \<forall>f\<in>set repo.
        fst e \<noteq> fst f \<and> b_roomId (snd e) = b_roomId (snd f)
          \<and> toDate (b_start (snd e)) = toDate (b_start (snd f))
        \<longrightarrow> \<not> overlaps (snd e) (snd f))"

text \<open>The consistency of the parking lot's booking repository that its own calls keep.\<close>

definition repo_consistent :: "(nat \<Rightarrow> string) \<Rightarrow> ParkingState \<Rightarrow> bool" where
  "repo_consistent gen st \<longleftrightarrow>
     (\<forall>v bid. cmap_find v (vehicleIndex (bookingRepo st)) = Some bid \<longrightarrow>
        (\<exists>b. cmap_find bid (bookings (bookingRepo st)) = Some b \<and> pb_vehicleId b = v)) \<and>
     (\<forall>e\<in>set (bookings (bookingRepo st)).
        pb_id (snd e) = fst e \<and> pb_end (snd e) = None \<and> (\<exists>k<ids_drawn st. fst e = gen k))"

text \<open>
  The test the body of \<open>parkVehicle\<close>'s loop makes on a spot id after \<open>isOccupied\<close>: the
  spot repository holds the spot and its type fits the vehicle.
\<close>

definition compatible :: "VehicleType \<Rightarrow> ParkingState \<Rightarrow> string \<Rightarrow> bool" where
  "compatible vt st spotId =
     (case cmap_find spotId (spots st) of None \<Rightarrow> False | Some sp \<Rightarrow> fits vt (spot_type sp))"

text \<open>The booking \<open>parkVehicle\<close> stores for a spot, and the state after storing it.\<close>

definition new_booking ::
  "(nat \<Rightarrow> string) \<Rightarrow> string \<Rightarrow> VehicleType \<Rightarrow> time_point \<Rightarrow> string \<Rightarrow> ParkingState
     \<Rightarrow> ParkingBooking" where
  "new_booking gen vehicleId vt now spotId st =
     \<lparr>pb_id = gen (ids_drawn st), pb_spotId = spotId, pb_vehicleId = vehicleId,
      pb_vehicleType = vt, pb_start = now, pb_end = None\<rparr>"

definition parked ::
  "(nat \<Rightarrow> string) \<Rightarrow> string \<Rightarrow> VehicleType \<Rightarrow> time_point \<Rightarrow> string \<Rightarrow> ParkingState
     \<Rightarrow> ParkingState" where
  "parked gen vehicleId vt now spotId st =
     st\<lparr>ids_drawn := Suc (ids_drawn st),
        bookingRepo := park_save (new_booking gen vehicleId vt now spotId st) (bookingRepo st)\<rparr>"

section \<open>Properties\<close>

subsection \<open>Ordered maps\<close>

lemma cmap_find_put: "cmap_find k' (cmap_put k v m) = (if k' = k then Some v else cmap_find k' m)"
  by (induction m) (auto simp: cmap_find_def)

lemma cmap_find_erase: "cmap_find k' (cmap_erase k m) = (if k' = k then None else cmap_find k' m)"
  by (induction m) (auto simp: cmap_find_def cmap_erase_def)

lemma set_cmap_put: "set (cmap_put k v m) \<subseteq> insert (k, v) (set m)"
  by (induction m) (auto split: if_splits)

lemma set_cmap_erase: "set (cmap_erase k m) \<subseteq> set m"
  by (auto simp: cmap_erase_def)

lemma cmap_find_in_set: "cmap_find k m = Some v \<Longrightarrow> (k, v) \<in> set m"
  by (simp add: cmap_find_def map_of_SomeD)

subsection \<open>Conflict check and booking\<close>

lemma overlaps_iff: "overlaps a b \<longleftrightarrow> b_start b < b_end a \<and> b_start a < b_end b"
  by (auto simp: overlaps_def)

lemma overlaps_sym: "overlaps a b = overlaps b a"
  by (auto simp: overlaps_def)

lemma isFree_loop_iff: "isFree_loop xs b \<longleftrightarrow> (\<forall>ex\<in>set xs. \<not> overlaps ex b)"
  by (induction xs) auto

lemma isFree_iff:
  "isFree roomId b repo \<longleftrightarrow>
     (\<forall>e\<in>set repo. b_roomId (snd e) = roomId \<and> toDate (b_start (snd e)) = toDate (b_start b)
        \<longrightarrow> \<not> overlaps (snd e) b)"
  by (auto simp: isFree_def isFree_loop_iff findByRoomAndDay_def)

lemma bookMeeting_no_room:
  "strat (findByCapacity (size_to_int (length (b_attendees req))) (rr st))
         (size_to_int (length (b_attendees req))) = None
   \<Longrightarrow> bookMeeting gen strat req st = (None, st)"
  by (simp add: bookMeeting_def)

lemma bookMeeting_room:
  "strat (findByCapacity (size_to_int (length (b_attendees req))) (rr st))
         (size_to_int (length (b_attendees req))) = Some r
   \<Longrightarrow> bookMeeting gen strat req st =
       (if isFree (room_id r) (req\<lparr>b_roomId := room_id r, b_id := gen (uuids_drawn st)\<rparr>) (cal_repo st)
        then (Some (gen (uuids_drawn st)),
              st\<lparr>uuids_drawn := Suc (uuids_drawn st),
                 room_mutexes := cmap_touch (room_id r) () (room_mutexes st),
                 br := save (req\<lparr>b_roomId := room_id r, b_id := gen (uuids_drawn st)\<rparr>) (br st),
                 cal_repo := save (req\<lparr>b_roomId := room_id r, b_id := gen (uuids_drawn st)\<rparr>) (cal_repo st)\<rparr>)
        else (None, st\<lparr>uuids_drawn := Suc (uuids_drawn st),
                 room_mutexes := cmap_touch (room_id r) () (room_mutexes st)\<rparr>))"
  by (simp add: bookMeeting_def Let_def addEntry_def)

lemma isFree_after_save:
  assumes "isFree roomId b repo" and "\<not> overlaps a b"
  shows "isFree roomId b (save a repo)"
proof -
  have "set (save a repo) \<subseteq> insert (b_id a, a) (set repo)"
    by (simp add: save_def set_cmap_put)
  with assms show ?thesis
    unfolding isFree_iff by auto
qed

lemma booked_then_bookable:
  assumes nov: "\<not> overlaps a b"
    and a: "fst (bookMeeting gen strat a st) \<noteq> None"
    and b: "fst (bookMeeting gen strat b st) \<noteq> None"
  shows "fst (bookMeeting gen strat b (snd (bookMeeting gen strat a st))) \<noteq> None"
proof -
  let ?ca = "size_to_int (length (b_attendees a))"
  let ?cb = "size_to_int (length (b_attendees b))"
  from a obtain ra where ra: "strat (findByCapacity ?ca (rr st)) ?ca = Some ra"
    by (cases "strat (findByCapacity ?ca (rr st)) ?ca") (auto simp: bookMeeting_no_room)
  from b obtain rb where rb: "strat (findByCapacity ?cb (rr st)) ?cb = Some rb"
    by (cases "strat (findByCapacity ?cb (rr st)) ?cb") (auto simp: bookMeeting_no_room)
  let ?a' = "a\<lparr>b_roomId := room_id ra, b_id := gen (uuids_drawn st)\<rparr>"
  let ?st1 = "snd (bookMeeting gen strat a st)"
  from a ra have fa: "isFree (room_id ra) ?a' (cal_repo st)"
    by (auto simp: bookMeeting_room split: if_splits)
  from b rb have fb: "isFree (room_id rb) (b\<lparr>b_roomId := room_id rb\<rparr>) (cal_repo st)"
    by (auto simp: bookMeeting_room isFree_iff overlaps_def split: if_splits)
  from ra fa have cal1: "cal_repo ?st1 = save ?a' (cal_repo st)"
    and n1: "rr ?st1 = rr st"
    by (simp_all add: bookMeeting_room)
  from nov have "\<not> overlaps ?a' (b\<lparr>b_roomId := room_id rb\<rparr>)"
    by (simp add: overlaps_def)
  from isFree_after_save [OF fb this]
  have "isFree (room_id rb) (b\<lparr>b_roomId := room_id rb\<rparr>) (cal_repo ?st1)"
    by (simp add: cal1)
  then have "isFree (room_id rb) (b\<lparr>b_roomId := room_id rb, b_id := gen (uuids_drawn ?st1)\<rparr>) (cal_repo ?st1)"
    by (simp add: isFree_iff overlaps_def)
  moreover from rb n1 have "strat (findByCapacity ?cb (rr ?st1)) ?cb = Some rb" by simp
  ultimately show ?thesis
    by (simp add: bookMeeting_room)
qed


lemma bookMeeting_success:
  assumes "fst (bookMeeting gen strat req st) \<noteq> None"
  shows "\<exists>r::Room. bookMeeting gen strat req st =
     (Some (gen (uuids_drawn st)),
      st\<lparr>uuids_drawn := Suc (uuids_drawn st),
         room_mutexes := cmap_touch (room_id r) () (room_mutexes st),
         br := save (req\<lparr>b_roomId := room_id r, b_id := gen (uuids_drawn st)\<rparr>) (br st),
         cal_repo := save (req\<lparr>b_roomId := room_id r, b_id := gen (uuids_drawn st)\<rparr>) (cal_repo st)\<rparr>)"
proof (cases "strat (findByCapacity (size_to_int (length (b_attendees req))) (rr st))
         (size_to_int (length (b_attendees req)))")
  case None
  with assms show ?thesis by (simp add: bookMeeting_no_room)
next
  case (Some r)
  with assms have "bookMeeting gen strat req st =
     (Some (gen (uuids_drawn st)),
      st\<lparr>uuids_drawn := Suc (uuids_drawn st),
         room_mutexes := cmap_touch (room_id r) () (room_mutexes st),
         br := save (req\<lparr>b_roomId := room_id r, b_id := gen (uuids_drawn st)\<rparr>) (br st),
         cal_repo := save (req\<lparr>b_roomId := room_id r, b_id := gen (uuids_drawn st)\<rparr>) (cal_repo st)\<rparr>)"
    by (auto simp: bookMeeting_room split: if_splits)
  then show ?thesis by (rule exI)
qed

lemma both_stored:
  assumes nov: "\<not> overlaps a b"
    and a: "fst (bookMeeting gen strat a st) \<noteq> None"
    and b: "fst (bookMeeting gen strat b st) \<noteq> None"
    and d: "gen (uuids_drawn st) \<noteq> gen (Suc (uuids_drawn st))"
  shows "\<exists>ra rb.
     findById (gen (uuids_drawn st))
        (br (snd (bookMeeting gen strat b (snd (bookMeeting gen strat a st)))))
       = Some (a\<lparr>b_roomId := ra, b_id := gen (uuids_drawn st)\<rparr>) \<and>
     findById (gen (Suc (uuids_drawn st)))
        (br (snd (bookMeeting gen strat b (snd (bookMeeting gen strat a st)))))
       = Some (b\<lparr>b_roomId := rb, b_id := gen (Suc (uuids_drawn st))\<rparr>)"
proof -
  let ?st1 = "snd (bookMeeting gen strat a st)"
  from bookMeeting_success [OF a] obtain ra :: Room where
    1: "uuids_drawn ?st1 = Suc (uuids_drawn st)"
       "br ?st1 = save (a\<lparr>b_roomId := room_id ra, b_id := gen (uuids_drawn st)\<rparr>) (br st)"
    by auto
  from booked_then_bookable [OF nov a b]
  have "fst (bookMeeting gen strat b ?st1) \<noteq> None" .
  from bookMeeting_success [OF this] obtain rb :: Room where
    2: "br (snd (bookMeeting gen strat b ?st1)) =
          save (b\<lparr>b_roomId := room_id rb, b_id := gen (uuids_drawn ?st1)\<rparr>) (br ?st1)"
    by auto
  show ?thesis
    by (intro exI [of _ "room_id ra"] exI [of _ "room_id rb"])
       (use d in \<open>simp add: 2 1 findById_def save_def cmap_find_put\<close>)
qed

text \<open>
  C4. The overlap test of the conflict check is the half-open interval test: it holds
  exactly when the candidate starts before the existing booking ends and the existing
  booking starts before the candidate ends. A booking that ends at the time another
  starts does not conflict with it, in either argument order. When each of two such
  requests can be booked in a state, booking one leaves the other bookable: both calls
  return an id, in either order, and (the two identifiers drawn being different) both
  bookings are stored afterwards.
\<close>

theorem overlaps_half_open:
  "(overlaps existing candidate \<longleftrightarrow>
      b_start candidate < b_end existing \<and> b_start existing < b_end candidate) \<and>
   (b_end existing = b_start candidate \<longrightarrow>
      \<not> overlaps existing candidate \<and> \<not> overlaps candidate existing) \<and>
   (b_end a = b_start b \<and> fst (bookMeeting gen strat a st) \<noteq> None
      \<and> fst (bookMeeting gen strat b st) \<noteq> None \<longrightarrow>
      fst (bookMeeting gen strat b (snd (bookMeeting gen strat a st))) \<noteq> None \<and>
      fst (bookMeeting gen strat a (snd (bookMeeting gen strat b st))) \<noteq> None) \<and>
   (b_end a = b_start b \<and> fst (bookMeeting gen strat a st) \<noteq> None
      \<and> fst (bookMeeting gen strat b st) \<noteq> None
      \<and> gen (uuids_drawn st) \<noteq> gen (Suc (uuids_drawn st)) \<longrightarrow>
      (\<exists>ra rb.
         findById (gen (uuids_drawn st))
            (br (snd (bookMeeting gen strat b (snd (bookMeeting gen strat a st)))))
           = Some (a\<lparr>b_roomId := ra, b_id := gen (uuids_drawn st)\<rparr>) \<and>
         findById (gen (Suc (uuids_drawn st)))
            (br (snd (bookMeeting gen strat b (snd (bookMeeting gen strat a st)))))
           = Some (b\<lparr>b_roomId := rb, b_id := gen (Suc (uuids_drawn st))\<rparr>)))"
proof (intro conjI impI)
  show "overlaps existing candidate \<longleftrightarrow>
      b_start candidate < b_end existing \<and> b_start existing < b_end candidate"
    by (rule overlaps_iff)
next
  assume "b_end existing = b_start candidate"
  then show "\<not> overlaps existing candidate" by (simp add: overlaps_def)
next
  assume "b_end existing = b_start candidate"
  then show "\<not> overlaps candidate existing" by (simp add: overlaps_def)
next
  assume h: "b_end a = b_start b \<and> fst (bookMeeting gen strat a st) \<noteq> None
      \<and> fst (bookMeeting gen strat b st) \<noteq> None"
  then have "\<not> overlaps a b" by (simp add: overlaps_def)
  with h show "fst (bookMeeting gen strat b (snd (bookMeeting gen strat a st))) \<noteq> None"
    by (intro booked_then_bookable) simp_all
next
  assume h: "b_end a = b_start b \<and> fst (bookMeeting gen strat a st) \<noteq> None
      \<and> fst (bookMeeting gen strat b st) \<noteq> None"
  then have "\<not> overlaps b a" by (simp add: overlaps_def)
  with h show "fst (bookMeeting gen strat a (snd (bookMeeting gen strat b st))) \<noteq> None"
    by (intro booked_then_bookable) simp_all
next
  assume h: "b_end a = b_start b \<and> fst (bookMeeting gen strat a st) \<noteq> None
      \<and> fst (bookMeeting gen strat b st) \<noteq> None
      \<and> gen (uuids_drawn st) \<noteq> gen (Suc (uuids_drawn st))"
  then have "\<not> overlaps a b" by (simp add: overlaps_def)
  with h show "\<exists>ra rb.
         findById (gen (uuids_drawn st))
            (br (snd (bookMeeting gen strat b (snd (bookMeeting gen strat a st)))))
           = Some (a\<lparr>b_roomId := ra, b_id := gen (uuids_drawn st)\<rparr>) \<and>
         findById (gen (Suc (uuids_drawn st)))
            (br (snd (bookMeeting gen strat b (snd (bookMeeting gen strat a st)))))
           = Some (b\<lparr>b_roomId := rb, b_id := gen (Suc (uuids_drawn st))\<rparr>)"
    by (intro both_stored) simp_all
qed

theorem overlaps_half_open_witness:
  "b_end (sample_request 10 20) = b_start (sample_request 20 30) \<and>
   fst (bookMeeting sample_ids select (sample_request 10 20) (meeting_init [sample_room])) \<noteq> None \<and>
   fst (bookMeeting sample_ids select (sample_request 20 30) (meeting_init [sample_room])) \<noteq> None \<and>
   sample_ids (uuids_drawn (meeting_init [sample_room]))
     \<noteq> sample_ids (Suc (uuids_drawn (meeting_init [sample_room]))) \<and>
   \<not> overlaps (sample_request 10 20) (sample_request 20 30) \<and>
   fst (bookMeeting sample_ids select (sample_request 20 30)
         (snd (bookMeeting sample_ids select (sample_request 10 20) (meeting_init [sample_room]))))
     \<noteq> None \<and>
   (\<exists>ra rb.
      findById (sample_ids (uuids_drawn (meeting_init [sample_room])))
         (br (snd (bookMeeting sample_ids select (sample_request 20 30)
                (snd (bookMeeting sample_ids select (sample_request 10 20)
                       (meeting_init [sample_room]))))))
        = Some ((sample_request 10 20)
                  \<lparr>b_roomId := ra, b_id := sample_ids (uuids_drawn (meeting_init [sample_room]))\<rparr>) \<and>
      findById (sample_ids (Suc (uuids_drawn (meeting_init [sample_room]))))
         (br (snd (bookMeeting sample_ids select (sample_request 20 30)
                (snd (bookMeeting sample_ids select (sample_request 10 20)
                       (meeting_init [sample_room]))))))
        = Some ((sample_request 20 30)
                  \<lparr>b_roomId := rb,
                   b_id := sample_ids (Suc (uuids_drawn (meeting_init [sample_room])))\<rparr>))"
proof -
  have h1: "b_end (sample_request 10 20) = b_start (sample_request 20 30)"
    by (simp add: sample_request_def)
  have h2: "fst (bookMeeting sample_ids select (sample_request 10 20) (meeting_init [sample_room])) \<noteq> None"
    by code_simp
  have h3: "fst (bookMeeting sample_ids select (sample_request 20 30) (meeting_init [sample_room])) \<noteq> None"
    by code_simp
  have h4: "sample_ids (uuids_drawn (meeting_init [sample_room]))
     \<noteq> sample_ids (Suc (uuids_drawn (meeting_init [sample_room])))"
    by (simp add: sample_ids_def)
  from overlaps_half_open [of "sample_request 10 20" "sample_request 20 30"
      "sample_request 10 20" "sample_request 20 30" sample_ids select "meeting_init [sample_room]"]
    h1 h2 h3 h4
  show ?thesis by blast
qed


subsection \<open>SmallestFitStrategy\<close>

lemma select_loop_None:
  "select_loop rooms cap best = None \<longleftrightarrow> best = None \<and> (\<forall>r\<in>set rooms. capacity r < cap)"
  by (induction rooms arbitrary: best) (auto split: option.splits)

lemma select_loop_Some:
  "select_loop rooms cap best = Some r \<Longrightarrow>
     (best = Some r \<and> (\<forall>x\<in>set rooms. cap \<le> capacity x \<longrightarrow> capacity r \<le> capacity x)) \<or>
     (\<exists>pre post. rooms = pre @ r # post \<and> cap \<le> capacity r
        \<and> (\<forall>b. best = Some b \<longrightarrow> capacity r < capacity b)
        \<and> (\<forall>x\<in>set pre. cap \<le> capacity x \<longrightarrow> capacity r < capacity x)
        \<and> (\<forall>x\<in>set post. cap \<le> capacity x \<longrightarrow> capacity r \<le> capacity x))"
proof (induction rooms arbitrary: best)
  case Nil
  then show ?case by simp
next
  case (Cons y ys)
  show ?case
  proof (cases "capacity y \<ge> cap \<and> (case best of None \<Rightarrow> True | Some b \<Rightarrow> capacity y < capacity b)")
    case True
    with Cons.prems have "select_loop ys cap (Some y) = Some r" by simp
    from Cons.IH [OF this] show ?thesis
    proof
      assume h: "Some y = Some r \<and> (\<forall>x\<in>set ys. cap \<le> capacity x \<longrightarrow> capacity r \<le> capacity x)"
      with True show ?thesis
        by (intro disjI2 exI [of _ "[]"] exI [of _ ys]) (auto split: option.splits)
    next
      assume "\<exists>pre post. ys = pre @ r # post \<and> cap \<le> capacity r
        \<and> (\<forall>b. Some y = Some b \<longrightarrow> capacity r < capacity b)
        \<and> (\<forall>x\<in>set pre. cap \<le> capacity x \<longrightarrow> capacity r < capacity x)
        \<and> (\<forall>x\<in>set post. cap \<le> capacity x \<longrightarrow> capacity r \<le> capacity x)"
      then obtain pre post where h: "ys = pre @ r # post" "cap \<le> capacity r"
        "capacity r < capacity y"
        "\<forall>x\<in>set pre. cap \<le> capacity x \<longrightarrow> capacity r < capacity x"
        "\<forall>x\<in>set post. cap \<le> capacity x \<longrightarrow> capacity r \<le> capacity x" by auto
      with True show ?thesis
        by (intro disjI2 exI [of _ "y # pre"] exI [of _ post]) (auto split: option.splits)
    qed
  next
    case False
    with Cons.prems have "select_loop ys cap best = Some r" by auto
    from Cons.IH [OF this] show ?thesis
    proof
      assume h: "best = Some r \<and> (\<forall>x\<in>set ys. cap \<le> capacity x \<longrightarrow> capacity r \<le> capacity x)"
      with False show ?thesis by auto
    next
      assume "\<exists>pre post. ys = pre @ r # post \<and> cap \<le> capacity r
        \<and> (\<forall>b. best = Some b \<longrightarrow> capacity r < capacity b)
        \<and> (\<forall>x\<in>set pre. cap \<le> capacity x \<longrightarrow> capacity r < capacity x)
        \<and> (\<forall>x\<in>set post. cap \<le> capacity x \<longrightarrow> capacity r \<le> capacity x)"
      then obtain pre post where h: "ys = pre @ r # post" "cap \<le> capacity r"
        "\<forall>b. best = Some b \<longrightarrow> capacity r < capacity b"
        "\<forall>x\<in>set pre. cap \<le> capacity x \<longrightarrow> capacity r < capacity x"
        "\<forall>x\<in>set post. cap \<le> capacity x \<longrightarrow> capacity r \<le> capacity x" by auto
      with False show ?thesis
        by (intro disjI2 exI [of _ "y # pre"] exI [of _ post]) (auto split: option.splits)
    qed
  qed
qed

text \<open>
  C5 (as the code has it). \<open>select\<close> returns nothing exactly when no room has the
  required capacity. Otherwise it returns a room of the list that has the required
  capacity and the least capacity among such rooms; among rooms of that least capacity
  it is the one that comes first in the list it was given (every qualifying room before
  it is strictly larger), whatever the room ids are. For capacities 2, 4, 4, 8 in that
  order and required capacity 3 it returns the first of the two rooms of capacity 4.
\<close>

theorem select_first_smallest:
  "(select rooms cap = None \<longleftrightarrow> (\<forall>r\<in>set rooms. capacity r < cap)) \<and>
   (\<forall>r. select rooms cap = Some r \<longrightarrow>
      (\<exists>pre post. rooms = pre @ r # post \<and> cap \<le> capacity r
         \<and> (\<forall>x\<in>set pre. cap \<le> capacity x \<longrightarrow> capacity r < capacity x)
         \<and> (\<forall>x\<in>set post. cap \<le> capacity x \<longrightarrow> capacity r \<le> capacity x))) \<and>
   select [\<lparr>room_id = i1, capacity = 2\<rparr>, \<lparr>room_id = i2, capacity = 4\<rparr>,
           \<lparr>room_id = i3, capacity = 4\<rparr>, \<lparr>room_id = i4, capacity = 8\<rparr>] 3
     = Some \<lparr>room_id = i2, capacity = 4\<rparr>"
proof (intro conjI allI impI)
  show "select rooms cap = None \<longleftrightarrow> (\<forall>r\<in>set rooms. capacity r < cap)"
    by (simp add: select_def select_loop_None)
next
  fix r assume "select rooms cap = Some r"
  then have "select_loop rooms cap None = Some r" by (simp add: select_def)
  from select_loop_Some [OF this]
  show "\<exists>pre post. rooms = pre @ r # post \<and> cap \<le> capacity r
         \<and> (\<forall>x\<in>set pre. cap \<le> capacity x \<longrightarrow> capacity r < capacity x)
         \<and> (\<forall>x\<in>set post. cap \<le> capacity x \<longrightarrow> capacity r \<le> capacity x)"
    by auto
next
  show "select [\<lparr>room_id = i1, capacity = 2\<rparr>, \<lparr>room_id = i2, capacity = 4\<rparr>,
           \<lparr>room_id = i3, capacity = 4\<rparr>, \<lparr>room_id = i4, capacity = 8\<rparr>] 3
     = Some \<lparr>room_id = i2, capacity = 4\<rparr>"
    by (simp add: select_def)
qed

theorem select_first_smallest_witness:
  "select [\<lparr>room_id = ''b'', capacity = 4\<rparr>, \<lparr>room_id = ''a'', capacity = 4\<rparr>,
           \<lparr>room_id = ''c'', capacity = 2\<rparr>] 3 = Some \<lparr>room_id = ''b'', capacity = 4\<rparr> \<and>
   (\<exists>pre post. [\<lparr>room_id = ''b'', capacity = 4\<rparr>, \<lparr>room_id = ''a'', capacity = 4\<rparr>,
                 \<lparr>room_id = ''c'', capacity = 2\<rparr>] = pre @ \<lparr>room_id = ''b'', capacity = 4\<rparr> # post
      \<and> (3::int) \<le> capacity \<lparr>room_id = ''b'', capacity = 4\<rparr>
      \<and> (\<forall>x\<in>set pre. 3 \<le> capacity x \<longrightarrow> capacity \<lparr>room_id = ''b'', capacity = 4\<rparr> < capacity x)
      \<and> (\<forall>x\<in>set post. 3 \<le> capacity x \<longrightarrow> capacity \<lparr>room_id = ''b'', capacity = 4\<rparr> \<le> capacity x))"
proof -
  have h: "select [\<lparr>room_id = ''b'', capacity = 4\<rparr>, \<lparr>room_id = ''a'', capacity = 4\<rparr>,
           \<lparr>room_id = ''c'', capacity = 2\<rparr>] 3 = Some \<lparr>room_id = ''b'', capacity = 4\<rparr>"
    by (simp add: select_def)
  from select_first_smallest [of "[\<lparr>room_id = ''b'', capacity = 4\<rparr>,
      \<lparr>room_id = ''a'', capacity = 4\<rparr>, \<lparr>room_id = ''c'', capacity = 2\<rparr>]" 3] h
  show ?thesis by blast
qed

text \<open>
  C5 as stated fails: two rooms of capacity 4 with ids \<open>b\<close> and \<open>a\<close>, listed in that
  order, and required capacity 3. The room with id \<open>b\<close> is returned although \<open>a\<close> is the
  lower id, and listing the same rooms in the other order returns the other room.
\<close>

theorem select_tie_counterexample:
  "select [\<lparr>room_id = ''b'', capacity = 4\<rparr>, \<lparr>room_id = ''a'', capacity = 4\<rparr>] 3
     = Some \<lparr>room_id = ''b'', capacity = 4\<rparr>
   \<and> ''a'' < ''b''
   \<and> select [\<lparr>room_id = ''a'', capacity = 4\<rparr>, \<lparr>room_id = ''b'', capacity = 4\<rparr>] 3
     = Some \<lparr>room_id = ''a'', capacity = 4\<rparr>"
  by (simp add: select_def)

subsection \<open>The calendar invariant\<close>

lemma same_day_disjoint_save:
  assumes inv: "same_day_disjoint repo" and free: "isFree (b_roomId b) b repo"
  shows "same_day_disjoint (save b repo)"
proof -
  have sub: "set (save b repo) \<subseteq> insert (b_id b, b) (set repo)"
    by (simp add: save_def set_cmap_put)
  show ?thesis
    unfolding same_day_disjoint_def
  proof (intro ballI impI)
    fix e f
    assume e: "e \<in> set (save b repo)" and f: "f \<in> set (save b repo)"
      and h: "fst e \<noteq> fst f \<and> b_roomId (snd e) = b_roomId (snd f)
          \<and> toDate (b_start (snd e)) = toDate (b_start (snd f))"
    from e sub have e': "e = (b_id b, b) \<or> e \<in> set repo" by auto
    from f sub have f': "f = (b_id b, b) \<or> f \<in> set repo" by auto
    from e' f' show "\<not> overlaps (snd e) (snd f)"
    proof (elim disjE)
      assume "e = (b_id b, b)" "f = (b_id b, b)"
      with h show ?thesis by simp
    next
      assume "e = (b_id b, b)" "f \<in> set repo"
      with h free have "\<not> overlaps (snd f) b" by (simp add: isFree_iff)
      with \<open>e = (b_id b, b)\<close> show ?thesis by (simp add: overlaps_sym)
    next
      assume "e \<in> set repo" "f = (b_id b, b)"
      with h free show ?thesis by (simp add: isFree_iff)
    next
      assume "e \<in> set repo" "f \<in> set repo"
      with inv h show ?thesis unfolding same_day_disjoint_def by blast
    qed
  qed
qed

lemma same_day_disjoint_remove:
  "same_day_disjoint repo \<Longrightarrow> same_day_disjoint (remove bid repo)"
  unfolding same_day_disjoint_def remove_def cmap_erase_def by auto

lemma meeting_step_inv:
  assumes "cal_repo st = br st" and "same_day_disjoint (br st)"
  shows "cal_repo (meeting_step gen strat st c) = br (meeting_step gen strat st c)
         \<and> same_day_disjoint (br (meeting_step gen strat st c))"
proof (cases c)
  case (BookMeeting req)
  let ?cap = "size_to_int (length (b_attendees req))"
  show ?thesis
  proof (cases "strat (findByCapacity ?cap (rr st)) ?cap")
    case None
    with assms BookMeeting show ?thesis by (simp add: bookMeeting_no_room)
  next
    case (Some r)
    let ?b = "req\<lparr>b_roomId := room_id r, b_id := gen (uuids_drawn st)\<rparr>"
    show ?thesis
    proof (cases "isFree (room_id r) ?b (cal_repo st)")
      case True
      with assms have "isFree (b_roomId ?b) ?b (br st)" by simp
      from same_day_disjoint_save [OF assms(2) this] assms(1) True Some BookMeeting
      show ?thesis by (simp add: bookMeeting_room)
    next
      case False
      with assms Some BookMeeting show ?thesis by (simp add: bookMeeting_room)
    qed
  qed
next
  case (CancelMeeting bid)
  with assms show ?thesis
    by (auto simp: cancelMeeting_def removeEntry_def same_day_disjoint_remove split: option.splits)
qed

lemma meeting_run_inv:
  assumes "cal_repo st = br st" and "same_day_disjoint (br st)"
  shows "cal_repo (meeting_run gen strat calls st) = br (meeting_run gen strat calls st)
         \<and> same_day_disjoint (br (meeting_run gen strat calls st))"
  using assms unfolding meeting_run_def
proof (induction calls arbitrary: st)
  case Nil
  then show ?case by simp
next
  case (Cons c calls)
  from meeting_step_inv [OF Cons.prems, of gen strat c]
  show ?case using Cons.IH by simp
qed

text \<open>
  What the conflict check does keep, for every sequence of \<open>bookMeeting\<close> and
  \<open>cancelMeeting\<close> calls starting from empty repositories: two bookings stored under
  different ids for the same room whose start times fall on the same calendar date do
  not overlap.
\<close>

lemma same_day_bookings_disjoint:
  assumes "st = meeting_run gen strat calls (meeting_init rooms)"
    and "(i, a) \<in> set (br st)" and "(j, b) \<in> set (br st)" and "i \<noteq> j"
    and "b_roomId a = b_roomId b"
    and "toDate (b_start a) = toDate (b_start b)"
  shows "\<not> overlaps a b \<and> {b_start a..<b_end a} \<inter> {b_start b..<b_end b} = {}"
proof -
  have "same_day_disjoint (br (meeting_init rooms))" "cal_repo (meeting_init rooms) = br (meeting_init rooms)"
    by (simp_all add: same_day_disjoint_def meeting_init_def)
  from meeting_run_inv [OF this(2) this(1), of gen strat calls] assms(1)
  have "same_day_disjoint (br st)" by simp
  with assms(2-) have "\<not> overlaps a b"
    unfolding same_day_disjoint_def by fastforce
  then show ?thesis by (auto simp: overlaps_def)
qed

text \<open>
  C1 at a failing input. The conflict check reads only the bookings of the date on which
  the request starts. With one room, a booking from 00:30 to 02:00 of day 1 is stored;
  a request from 23:00 of day 0 to 01:00 of day 1 is then checked against day 0 alone
  and stored for the same room, although the two windows overlap (both contain the time
  00:30 of day 1).
\<close>

theorem overlap_across_midnight:
  "map snd (br (meeting_run sample_ids select
       [BookMeeting (sample_request 88200 93600), BookMeeting (sample_request 82800 90000)]
       (meeting_init [sample_room]))) =
     [\<lparr>b_id = ''id'', b_roomId = ''R'', b_start = 88200, b_end = 93600, b_attendees = [''ann'']\<rparr>,
      \<lparr>b_id = ''id+'', b_roomId = ''R'', b_start = 82800, b_end = 90000, b_attendees = [''ann'']\<rparr>] \<and>
   overlaps
     \<lparr>b_id = ''id'', b_roomId = ''R'', b_start = 88200, b_end = 93600, b_attendees = [''ann'']\<rparr>
     \<lparr>b_id = ''id+'', b_roomId = ''R'', b_start = 82800, b_end = 90000, b_attendees = [''ann'']\<rparr> \<and>
   (88200::int) \<in> {88200..<93600} \<inter> {82800..<90000}"
  by (intro conjI, code_simp, code_simp, simp)


subsection \<open>Malformed windows\<close>




subsection \<open>Failed booking and cancellation\<close>

lemma bookMeeting_None_repos:
  "fst (bookMeeting gen strat req st) = None \<Longrightarrow>
     br (snd (bookMeeting gen strat req st)) = br st \<and>
     cal_repo (snd (bookMeeting gen strat req st)) = cal_repo st"
  by (cases "strat (findByCapacity (size_to_int (length (b_attendees req))) (rr st))
         (size_to_int (length (b_attendees req)))")
     (auto simp: bookMeeting_no_room bookMeeting_room split: if_splits)

lemma cancelMeeting_absent:
  "findById bid (br st) = None \<Longrightarrow> cancelMeeting bid st = (False, st)"
  by (simp add: cancelMeeting_def)

lemma cancelMeeting_present:
  "findById bid (br st) = Some b \<Longrightarrow>
     cancelMeeting bid st =
       (True, st\<lparr>br := remove bid (br st), cal_repo := removeEntry bid (cal_repo st)\<rparr>)"
  by (simp add: cancelMeeting_def)

lemma findById_remove: "findById k (remove bid repo) = (if k = bid then None else findById k repo)"
  by (simp add: findById_def remove_def cmap_find_erase)

section \<open>Properties of the parking lot\<close>

subsection \<open>Consistency of the booking repository\<close>

lemma findByVehicle_consistent:
  assumes "repo_consistent gen st"
  shows "findByVehicle v (bookingRepo st) =
     (case cmap_find v (vehicleIndex (bookingRepo st)) of
        None \<Rightarrow> None
      | Some bid \<Rightarrow> cmap_find bid (bookings (bookingRepo st)), bookingRepo st)"
proof (cases "cmap_find v (vehicleIndex (bookingRepo st))")
  case None
  then show ?thesis by (simp add: findByVehicle_def)
next
  case (Some bid)
  with assms obtain b where "cmap_find bid (bookings (bookingRepo st)) = Some b"
    unfolding repo_consistent_def by blast
  with Some show ?thesis by (simp add: findByVehicle_def)
qed

lemma isOccupied_consistent:
  "repo_consistent gen st \<Longrightarrow> isOccupied spotId st = (False, st)"
  by (simp add: isOccupied_def findByVehicle_consistent)

lemma repo_consistent_mono:
  "repo_consistent gen st \<Longrightarrow> bookingRepo st' = bookingRepo st \<Longrightarrow> ids_drawn st \<le> ids_drawn st'
   \<Longrightarrow> repo_consistent gen st'"
  unfolding repo_consistent_def
  by (metis (no_types, lifting) less_le_trans)

lemma create_spots_keeps:
  "bookingRepo (create_spots gen fid ty n st) = bookingRepo st \<and>
   ids_drawn st \<le> ids_drawn (create_spots gen fid ty n st)"
proof (induction n arbitrary: st)
  case 0
  show ?case by simp
next
  case (Suc n)
  let ?st1 = "st\<lparr>ids_drawn := Suc (ids_drawn st),
               spots := cmap_put (gen (ids_drawn st))
                  \<lparr>spot_id = gen (ids_drawn st), floorId = fid, spot_type = ty\<rparr> (spots st),
               mutexes := cmap_touch (gen (ids_drawn st)) () (mutexes st)\<rparr>"
  from Suc.IH [of ?st1] show ?case by (simp add: Let_def)
qed

lemma create_types_keeps:
  "bookingRepo (create_types gen fid counts st) = bookingRepo st \<and>
   ids_drawn st \<le> ids_drawn (create_types gen fid counts st)"
proof (induction counts arbitrary: st)
  case Nil
  show ?case by simp
next
  case (Cons c counts)
  obtain ty n where c: "c = (ty, n)" by (cases c)
  from Cons.IH [of "create_spots gen fid ty (nat n) st"] create_spots_keeps [of gen fid ty "nat n" st]
  show ?case by (simp add: c)
qed

lemma create_levels_keeps:
  "bookingRepo (create_levels gen lid counts lvl n st) = bookingRepo st \<and>
   ids_drawn st \<le> ids_drawn (create_levels gen lid counts lvl n st)"
proof (induction n arbitrary: st lvl)
  case 0
  show ?case by simp
next
  case (Suc n)
  let ?fid = "gen (ids_drawn st)"
  let ?st1 = "st\<lparr>ids_drawn := Suc (ids_drawn st),
                   floors := cmap_put ?fid \<lparr>floor_id = ?fid, lotId = lid, level = lvl\<rparr> (floors st)\<rparr>"
  from Suc.IH [of "lvl + 1" "create_types gen ?fid counts ?st1"]
    create_types_keeps [of gen ?fid counts ?st1]
  show ?case by (simp add: Let_def)
qed

lemma createParkingLot_keeps:
  "bookingRepo (snd (createParkingLot gen levels spl counts st)) = bookingRepo st \<and>
   ids_drawn st \<le> ids_drawn (snd (createParkingLot gen levels spl counts st))"
proof -
  let ?lid = "gen (ids_drawn st)"
  let ?st1 = "st\<lparr>ids_drawn := Suc (ids_drawn st),
                   lots := cmap_put ?lid \<lparr>lot_id = ?lid, numLevels = levels\<rparr> (lots st)\<rparr>"
  from create_levels_keeps [of gen ?lid counts 1 "nat levels" ?st1]
  show ?thesis by (simp add: createParkingLot_def Let_def)
qed


lemma park_loop_first:
  assumes "repo_consistent gen st"
  shows "park_loop gen v vt now ms st =
     (case find (\<lambda>e. compatible vt st (fst e)) ms of
        None \<Rightarrow> (None, st)
      | Some e \<Rightarrow> (Some (gen (ids_drawn st)), parked gen v vt now (fst e) st))"
proof (induction ms)
  case Nil
  show ?case by simp
next
  case (Cons m ms)
  obtain spotId mtx where m: "m = (spotId, mtx)" by (cases m)
  from assms have occ: "isOccupied spotId st = (False, st)" by (rule isOccupied_consistent)
  show ?case
  proof (cases "cmap_find spotId (spots st)")
    case None
    with Cons occ m show ?thesis by (simp add: compatible_def)
  next
    case (Some sp)
    with Cons occ m show ?thesis
      by (simp add: compatible_def parked_def new_booking_def Let_def)
  qed
qed

lemma parkVehicle_first:
  assumes "repo_consistent gen st"
  shows "parkVehicle gen v vt now st =
     (case find (\<lambda>e. compatible vt st (fst e)) (mutexes st) of
        None \<Rightarrow> (None, st)
      | Some e \<Rightarrow> (Some (gen (ids_drawn st)), parked gen v vt now (fst e) st))"
  by (simp add: parkVehicle_def park_loop_first [OF assms])

lemma parked_consistent:
  assumes inj: "inj gen" and c: "repo_consistent gen st"
  shows "repo_consistent gen (parked gen v vt now spotId st)"
proof -
  let ?n = "ids_drawn st"
  let ?b = "new_booking gen v vt now spotId st"
  have fresh: "\<And>e. e \<in> set (bookings (bookingRepo st)) \<Longrightarrow> fst e \<noteq> gen ?n"
  proof -
    fix e assume "e \<in> set (bookings (bookingRepo st))"
    with c obtain k where "k < ?n" "fst e = gen k" unfolding repo_consistent_def by blast
    with inj show "fst e \<noteq> gen ?n" by (auto dest: injD)
  qed
  have idx: "\<And>v' bid. cmap_find v' (vehicleIndex (bookingRepo st)) = Some bid \<Longrightarrow> bid \<noteq> gen ?n"
  proof -
    fix v' bid assume "cmap_find v' (vehicleIndex (bookingRepo st)) = Some bid"
    with c obtain b where "cmap_find bid (bookings (bookingRepo st)) = Some b"
      unfolding repo_consistent_def by blast
    then have "(bid, b) \<in> set (bookings (bookingRepo st))" by (rule cmap_find_in_set)
    from fresh [OF this] show "bid \<noteq> gen ?n" by simp
  qed
  have A: "\<forall>v' bid. cmap_find v' (vehicleIndex (bookingRepo (parked gen v vt now spotId st))) = Some bid
      \<longrightarrow> (\<exists>b. cmap_find bid (bookings (bookingRepo (parked gen v vt now spotId st))) = Some b
              \<and> pb_vehicleId b = v')"
  proof (intro allI impI)
    fix v' bid
    assume h: "cmap_find v' (vehicleIndex (bookingRepo (parked gen v vt now spotId st))) = Some bid"
    show "\<exists>b. cmap_find bid (bookings (bookingRepo (parked gen v vt now spotId st))) = Some b
              \<and> pb_vehicleId b = v'"
    proof (cases "v' = v")
      case True
      with h have "bid = gen ?n"
        by (simp add: parked_def park_save_def cmap_find_put new_booking_def)
      with True show ?thesis
        by (simp add: parked_def park_save_def cmap_find_put new_booking_def)
    next
      case False
      with h have old: "cmap_find v' (vehicleIndex (bookingRepo st)) = Some bid"
        by (simp add: parked_def park_save_def cmap_find_put new_booking_def)
      with c obtain b where "cmap_find bid (bookings (bookingRepo st)) = Some b" "pb_vehicleId b = v'"
        unfolding repo_consistent_def by blast
      with idx [OF old] show ?thesis
        by (simp add: parked_def park_save_def cmap_find_put new_booking_def)
    qed
  qed
  have B: "\<forall>e\<in>set (bookings (bookingRepo (parked gen v vt now spotId st))).
      pb_id (snd e) = fst e \<and> pb_end (snd e) = None
               \<and> (\<exists>k<ids_drawn (parked gen v vt now spotId st). fst e = gen k)"
  proof (rule ballI)
    fix e
    assume "e \<in> set (bookings (bookingRepo (parked gen v vt now spotId st)))"
    then have "e \<in> set (cmap_put (gen ?n) ?b (bookings (bookingRepo st)))"
      by (simp add: parked_def park_save_def new_booking_def)
    with set_cmap_put [of "gen ?n" ?b "bookings (bookingRepo st)"]
    have "e = (gen ?n, ?b) \<or> e \<in> set (bookings (bookingRepo st))" by auto
    then show "pb_id (snd e) = fst e \<and> pb_end (snd e) = None
               \<and> (\<exists>k<ids_drawn (parked gen v vt now spotId st). fst e = gen k)"
    proof
      assume "e = (gen ?n, ?b)"
      then show ?thesis by (auto simp: new_booking_def parked_def)
    next
      assume "e \<in> set (bookings (bookingRepo st))"
      with c have "pb_id (snd e) = fst e \<and> pb_end (snd e) = None \<and> (\<exists>k<?n. fst e = gen k)"
        unfolding repo_consistent_def by blast
      then show ?thesis by (auto simp: parked_def intro: less_SucI)
    qed
  qed
  from A B show ?thesis unfolding repo_consistent_def by (rule conjI)
qed

lemma parkVehicle_consistent:
  assumes "inj gen" and "repo_consistent gen st"
  shows "repo_consistent gen (snd (parkVehicle gen v vt now st))"
  using assms
  by (simp add: parkVehicle_first parked_consistent split: option.splits)

text \<open>What \<open>leaveVehicle\<close> does in a consistent repository.\<close>

lemma leaveVehicle_absent:
  assumes "repo_consistent gen st" and "cmap_find v (vehicleIndex (bookingRepo st)) = None"
  shows "leaveVehicle v now st = (False, st)"
  using assms by (simp add: leaveVehicle_def findByVehicle_consistent)

lemma leaveVehicle_present:
  assumes c: "repo_consistent gen st" and i: "cmap_find v (vehicleIndex (bookingRepo st)) = Some bid"
  shows "\<exists>b. cmap_find bid (bookings (bookingRepo st)) = Some b \<and> pb_id b = bid \<and> pb_vehicleId b = v \<and>
     leaveVehicle v now st =
       (True, st\<lparr>bookingRepo := (bookingRepo st)
                   \<lparr>vehicleIndex := cmap_erase v (vehicleIndex (bookingRepo st)),
                    bookings := cmap_erase bid (bookings (bookingRepo st))\<rparr>\<rparr>)"
proof -
  from c i obtain b where b: "cmap_find bid (bookings (bookingRepo st)) = Some b" "pb_vehicleId b = v"
    unfolding repo_consistent_def by blast
  from b(1) have "(bid, b) \<in> set (bookings (bookingRepo st))" by (rule cmap_find_in_set)
  with c have id: "pb_id b = bid" unfolding repo_consistent_def by fastforce
  from c i b id have "leaveVehicle v now st =
       (True, st\<lparr>bookingRepo := (bookingRepo st)
                   \<lparr>vehicleIndex := cmap_erase v (vehicleIndex (bookingRepo st)),
                    bookings := cmap_erase bid (bookings (bookingRepo st))\<rparr>\<rparr>)"
    by (simp add: leaveVehicle_def findByVehicle_consistent park_remove_def)
  with b id show ?thesis by blast
qed

lemma leaveVehicle_consistent:
  assumes c: "repo_consistent gen st"
  shows "repo_consistent gen (snd (leaveVehicle v now st))"
proof (cases "cmap_find v (vehicleIndex (bookingRepo st))")
  case None
  with c show ?thesis by (simp add: leaveVehicle_absent)
next
  case (Some bid)
  define st' where "st' = snd (leaveVehicle v now st)"
  from leaveVehicle_present [OF c Some, of now]
  obtain b where b: "cmap_find bid (bookings (bookingRepo st)) = Some b" "pb_vehicleId b = v"
    and l: "leaveVehicle v now st =
       (True, st\<lparr>bookingRepo := (bookingRepo st)
                   \<lparr>vehicleIndex := cmap_erase v (vehicleIndex (bookingRepo st)),
                    bookings := cmap_erase bid (bookings (bookingRepo st))\<rparr>\<rparr>)"
    by blast
  from l have vi: "vehicleIndex (bookingRepo st') = cmap_erase v (vehicleIndex (bookingRepo st))"
    and bk: "bookings (bookingRepo st') = cmap_erase bid (bookings (bookingRepo st))"
    and dr: "ids_drawn st' = ids_drawn st"
    by (simp_all add: st'_def)
  have A: "\<forall>v' bid'. cmap_find v' (vehicleIndex (bookingRepo st')) = Some bid'
      \<longrightarrow> (\<exists>b. cmap_find bid' (bookings (bookingRepo st')) = Some b \<and> pb_vehicleId b = v')"
  proof (intro allI impI)
    fix v' bid'
    assume "cmap_find v' (vehicleIndex (bookingRepo st')) = Some bid'"
    then have ne: "v' \<noteq> v" and old: "cmap_find v' (vehicleIndex (bookingRepo st)) = Some bid'"
      by (auto simp: vi cmap_find_erase split: if_splits)
    from c old obtain b' where b': "cmap_find bid' (bookings (bookingRepo st)) = Some b'"
      "pb_vehicleId b' = v'"
      unfolding repo_consistent_def by blast
    with b ne have "bid' \<noteq> bid" by auto
    with b' show "\<exists>b. cmap_find bid' (bookings (bookingRepo st')) = Some b \<and> pb_vehicleId b = v'"
      by (simp add: bk cmap_find_erase)
  qed
  have B: "\<forall>e\<in>set (bookings (bookingRepo st')).
      pb_id (snd e) = fst e \<and> pb_end (snd e) = None \<and> (\<exists>k<ids_drawn st'. fst e = gen k)"
  proof (rule ballI)
    fix e
    assume "e \<in> set (bookings (bookingRepo st'))"
    then have "e \<in> set (bookings (bookingRepo st))"
      using set_cmap_erase [of bid "bookings (bookingRepo st)"] by (auto simp: bk)
    with c show "pb_id (snd e) = fst e \<and> pb_end (snd e) = None \<and> (\<exists>k<ids_drawn st'. fst e = gen k)"
      unfolding repo_consistent_def dr by blast
  qed
  from A B have "repo_consistent gen st'" unfolding repo_consistent_def by (rule conjI)
  then show ?thesis by (simp add: st'_def)
qed

lemma available_loop_state:
  assumes "repo_consistent gen st"
  shows "snd (available_loop vt ms res st) = st"
proof (induction ms arbitrary: res)
  case Nil
  show ?case by simp
next
  case (Cons m ms)
  obtain spotId mtx where m: "m = (spotId, mtx)" by (cases m)
  from assms have occ: "isOccupied spotId st = (False, st)" by (rule isOccupied_consistent)
  show ?case
    by (cases "cmap_find spotId (spots st)") (simp_all add: m occ Cons)
qed

lemma parking_step_consistent:
  assumes "inj gen" and "repo_consistent gen st"
  shows "repo_consistent gen (parking_step gen st c)"
proof (cases c)
  case (CreateParkingLot levels spl counts)
  with assms(2) createParkingLot_keeps [of gen levels spl counts st] show ?thesis
    by (auto intro: repo_consistent_mono)
next
  case (ParkVehicle v vt now)
  with assms show ?thesis by (simp add: parkVehicle_consistent)
next
  case (LeaveVehicle v now)
  with assms show ?thesis by (simp add: leaveVehicle_consistent)
next
  case (GetAvailableSpots vt)
  with assms show ?thesis by (simp add: getAvailableSpots_def available_loop_state)
qed

lemma parking_run_consistent:
  assumes "inj gen" and "repo_consistent gen st"
  shows "repo_consistent gen (parking_run gen calls st)"
  using assms(2) unfolding parking_run_def
proof (induction calls arbitrary: st)
  case Nil
  then show ?case by simp
next
  case (Cons c calls)
  from parking_step_consistent [OF assms(1) Cons.prems] show ?case
    using Cons.IH by simp
qed

lemma parking_init_consistent: "repo_consistent gen parking_init"
  by (simp add: repo_consistent_def parking_init_def cmap_find_def)

lemma reachable_consistent:
  "inj gen \<Longrightarrow> repo_consistent gen (parking_run gen calls parking_init)"
  by (rule parking_run_consistent [OF _ parking_init_consistent])

lemma inj_sample_ids: "inj sample_ids"
  by (auto simp: inj_def sample_ids_def dest: arg_cong [where f = length])


section \<open>Failed allocation\<close>

text \<open>
  C10. A failed allocation leaves the booking repositories as they were. When
  \<open>bookMeeting\<close> returns nothing (no room selected, or the selected room not free), the
  booking repository and the calendar's repository are unchanged. When \<open>parkVehicle\<close>
  returns nothing in a state reached by calls of the parking service from its initial
  state, with identifiers that do not repeat, the repository (bookings and vehicle
  index) is unchanged.
\<close>

theorem failed_allocation_keeps_repositories:
  "(fst (bookMeeting mgen strat req mst) = None \<longrightarrow>
      br (snd (bookMeeting mgen strat req mst)) = br mst \<and>
      cal_repo (snd (bookMeeting mgen strat req mst)) = cal_repo mst) \<and>
   (inj gen \<and> pst = parking_run gen calls parking_init
      \<and> fst (parkVehicle gen v vt now pst) = None \<longrightarrow>
      bookingRepo (snd (parkVehicle gen v vt now pst)) = bookingRepo pst)"
proof (intro conjI impI)
  assume "fst (bookMeeting mgen strat req mst) = None"
  then show "br (snd (bookMeeting mgen strat req mst)) = br mst"
    by (simp add: bookMeeting_None_repos)
next
  assume "fst (bookMeeting mgen strat req mst) = None"
  then show "cal_repo (snd (bookMeeting mgen strat req mst)) = cal_repo mst"
    by (simp add: bookMeeting_None_repos)
next
  assume h: "inj gen \<and> pst = parking_run gen calls parking_init
      \<and> fst (parkVehicle gen v vt now pst) = None"
  then have "repo_consistent gen pst" by (simp add: reachable_consistent)
  from parkVehicle_first [OF this, of v vt now] h
  show "bookingRepo (snd (parkVehicle gen v vt now pst)) = bookingRepo pst"
    by (auto split: option.splits)
qed

theorem failed_allocation_keeps_repositories_witness:
  "fst (bookMeeting sample_ids select (sample_request 15 25)
          (snd (bookMeeting sample_ids select (sample_request 10 20) (meeting_init [sample_room]))))
     = None \<and>
   br (snd (bookMeeting sample_ids select (sample_request 15 25)
          (snd (bookMeeting sample_ids select (sample_request 10 20) (meeting_init [sample_room])))))
     = br (snd (bookMeeting sample_ids select (sample_request 10 20) (meeting_init [sample_room]))) \<and>
   inj sample_ids \<and>
   fst (parkVehicle sample_ids ''V'' Truck 100
          (parking_run sample_ids [CreateParkingLot 1 1 [(Compact, 1)]] parking_init)) = None \<and>
   bookingRepo (snd (parkVehicle sample_ids ''V'' Truck 100
          (parking_run sample_ids [CreateParkingLot 1 1 [(Compact, 1)]] parking_init)))
     = bookingRepo (parking_run sample_ids [CreateParkingLot 1 1 [(Compact, 1)]] parking_init)"
proof -
  let ?mst = "snd (bookMeeting sample_ids select (sample_request 10 20) (meeting_init [sample_room]))"
  let ?pst = "parking_run sample_ids [CreateParkingLot 1 1 [(Compact, 1)]] parking_init"
  have h1: "fst (bookMeeting sample_ids select (sample_request 15 25) ?mst) = None"
    by code_simp
  have h2: "fst (parkVehicle sample_ids ''V'' Truck 100 ?pst) = None"
    by code_simp
  from failed_allocation_keeps_repositories [of sample_ids select "sample_request 15 25" ?mst
      sample_ids ?pst "[CreateParkingLot 1 1 [(Compact, 1)]]" "''V''" Truck 100]
    h1 h2 inj_sample_ids
  show ?thesis by blast
qed


section \<open>Release\<close>

lemma leaveVehicle_twice:
  assumes c: "repo_consistent gen st" and t: "fst (leaveVehicle v now st)"
  shows "\<not> fst (leaveVehicle v now' (snd (leaveVehicle v now st)))"
proof (cases "cmap_find v (vehicleIndex (bookingRepo st))")
  case None
  with c t show ?thesis by (simp add: leaveVehicle_absent)
next
  case (Some bid)
  from leaveVehicle_present [OF c Some, of now]
  have "cmap_find v (vehicleIndex (bookingRepo (snd (leaveVehicle v now st)))) = None"
    by (auto simp: cmap_find_erase)
  with leaveVehicle_consistent [OF c, of v now] show ?thesis
    by (simp add: leaveVehicle_absent)
qed

lemma no_booking_no_index:
  assumes c: "repo_consistent gen st"
    and n: "\<forall>e\<in>set (bookings (bookingRepo st)). pb_vehicleId (snd e) \<noteq> v"
  shows "cmap_find v (vehicleIndex (bookingRepo st)) = None"
proof (rule ccontr)
  assume "cmap_find v (vehicleIndex (bookingRepo st)) \<noteq> None"
  then obtain bid where "cmap_find v (vehicleIndex (bookingRepo st)) = Some bid" by auto
  with c obtain b where b: "cmap_find bid (bookings (bookingRepo st)) = Some b" "pb_vehicleId b = v"
    unfolding repo_consistent_def by blast
  from b(1) have "(bid, b) \<in> set (bookings (bookingRepo st))" by (rule cmap_find_in_set)
  with n b(2) show False by force
qed

text \<open>
  Release through the lookup. \<open>cancelMeeting\<close> with an id the booking repository does
  not hold returns false and changes nothing; with an id it holds, it returns true, the
  id is gone from both repositories, and a second call returns false. In a state reached
  by calls of the parking service from its initial state, with identifiers that do not
  repeat: \<open>leaveVehicle\<close> for a vehicle with no stored booking, or one the vehicle index
  does not find, returns false and changes nothing; for a vehicle whose booking the index
  finds it returns true, that booking is gone from the store, the index finds nothing
  any more, and a second call returns false.
\<close>

lemma release_through_lookup:
  assumes "inj gen" and "pst = parking_run gen calls parking_init"
  shows
   "(findById bid (br mst) = None \<longrightarrow> cancelMeeting bid mst = (False, mst)) \<and>
    (findById bid (br mst) \<noteq> None \<longrightarrow>
       fst (cancelMeeting bid mst) \<and>
       findById bid (br (snd (cancelMeeting bid mst))) = None \<and>
       findById bid (cal_repo (snd (cancelMeeting bid mst))) = None \<and>
       \<not> fst (cancelMeeting bid (snd (cancelMeeting bid mst)))) \<and>
    ((\<forall>e\<in>set (bookings (bookingRepo pst)). pb_vehicleId (snd e) \<noteq> v) \<longrightarrow>
       leaveVehicle v now pst = (False, pst)) \<and>
    (fst (findByVehicle v (bookingRepo pst)) = None \<longrightarrow> leaveVehicle v now pst = (False, pst)) \<and>
    (\<forall>b. fst (findByVehicle v (bookingRepo pst)) = Some b \<longrightarrow>
       fst (leaveVehicle v now pst) \<and>
       cmap_find (pb_id b) (bookings (bookingRepo (snd (leaveVehicle v now pst)))) = None \<and>
       fst (findByVehicle v (bookingRepo (snd (leaveVehicle v now pst)))) = None \<and>
       \<not> fst (leaveVehicle v now' (snd (leaveVehicle v now pst))))"
proof -
  from assms have c: "repo_consistent gen pst" by (simp add: reachable_consistent)
  have m1: "findById bid (br mst) = None \<longrightarrow> cancelMeeting bid mst = (False, mst)"
    by (simp add: cancelMeeting_absent)
  have m2: "findById bid (br mst) \<noteq> None \<longrightarrow>
       fst (cancelMeeting bid mst) \<and>
       findById bid (br (snd (cancelMeeting bid mst))) = None \<and>
       findById bid (cal_repo (snd (cancelMeeting bid mst))) = None \<and>
       \<not> fst (cancelMeeting bid (snd (cancelMeeting bid mst)))"
    by (auto simp: cancelMeeting_present findById_remove removeEntry_def cancelMeeting_absent)
  have p1: "(\<forall>e\<in>set (bookings (bookingRepo pst)). pb_vehicleId (snd e) \<noteq> v) \<longrightarrow>
       leaveVehicle v now pst = (False, pst)"
    using no_booking_no_index [OF c] leaveVehicle_absent [OF c] by blast
  have p2: "fst (findByVehicle v (bookingRepo pst)) = None \<longrightarrow> leaveVehicle v now pst = (False, pst)"
    by (auto simp: leaveVehicle_def findByVehicle_consistent [OF c] split: option.splits)
  have p3: "\<forall>b. fst (findByVehicle v (bookingRepo pst)) = Some b \<longrightarrow>
       fst (leaveVehicle v now pst) \<and>
       cmap_find (pb_id b) (bookings (bookingRepo (snd (leaveVehicle v now pst)))) = None \<and>
       fst (findByVehicle v (bookingRepo (snd (leaveVehicle v now pst)))) = None \<and>
       \<not> fst (leaveVehicle v now' (snd (leaveVehicle v now pst)))"
  proof (intro allI impI)
    fix b assume f: "fst (findByVehicle v (bookingRepo pst)) = Some b"
    then obtain i where i: "cmap_find v (vehicleIndex (bookingRepo pst)) = Some i"
      and bi: "cmap_find i (bookings (bookingRepo pst)) = Some b"
      by (auto simp: findByVehicle_consistent [OF c] split: option.splits)
    from leaveVehicle_present [OF c i, of now] bi
    have id: "pb_id b = i"
      and l: "leaveVehicle v now pst =
       (True, pst\<lparr>bookingRepo := (bookingRepo pst)
                   \<lparr>vehicleIndex := cmap_erase v (vehicleIndex (bookingRepo pst)),
                    bookings := cmap_erase i (bookings (bookingRepo pst))\<rparr>\<rparr>)"
      by auto
    have c': "repo_consistent gen (snd (leaveVehicle v now pst))"
      by (rule leaveVehicle_consistent [OF c])
    from l have t: "fst (leaveVehicle v now pst)" by simp
    from l id have g: "cmap_find (pb_id b) (bookings (bookingRepo (snd (leaveVehicle v now pst)))) = None"
      by (simp add: cmap_find_erase)
    from l have "cmap_find v (vehicleIndex (bookingRepo (snd (leaveVehicle v now pst)))) = None"
      by (simp add: cmap_find_erase)
    then have n: "fst (findByVehicle v (bookingRepo (snd (leaveVehicle v now pst)))) = None"
      by (simp add: findByVehicle_consistent [OF c'])
    from t g n leaveVehicle_twice [OF c t, of now']
    show "fst (leaveVehicle v now pst) \<and>
       cmap_find (pb_id b) (bookings (bookingRepo (snd (leaveVehicle v now pst)))) = None \<and>
       fst (findByVehicle v (bookingRepo (snd (leaveVehicle v now pst)))) = None \<and>
       \<not> fst (leaveVehicle v now' (snd (leaveVehicle v now pst)))"
      by blast
  qed
  from m1 m2 p1 p2 p3 show ?thesis by blast
qed


text \<open>
  C7 at a failing input. A lot with one compact spot; vehicle \<open>V\<close> parks twice and
  leaves once. The second \<open>save\<close> overwrote the vehicle's index entry, so the leave
  (which returns true) removed the second booking and the index entry; the first booking
  of \<open>V\<close> is still stored, without leave time. \<open>leaveVehicle\<close> for \<open>V\<close> now returns
  false and changes nothing, although a reservation of \<open>V\<close> exists.
\<close>

theorem shadowed_booking_not_released:
  "fst (leaveVehicle ''V'' 200 (parking_run sample_ids
          [CreateParkingLot 1 1 [(Compact, 1)], ParkVehicle ''V'' Car 100,
           ParkVehicle ''V'' Car 101] parking_init)) \<and>
   bookings (bookingRepo (parking_run sample_ids
          [CreateParkingLot 1 1 [(Compact, 1)], ParkVehicle ''V'' Car 100,
           ParkVehicle ''V'' Car 101, LeaveVehicle ''V'' 200] parking_init))
     = [(''id+++'', \<lparr>pb_id = ''id+++'', pb_spotId = ''id++'', pb_vehicleId = ''V'',
                     pb_vehicleType = Car, pb_start = 100, pb_end = None\<rparr>)] \<and>
   vehicleIndex (bookingRepo (parking_run sample_ids
          [CreateParkingLot 1 1 [(Compact, 1)], ParkVehicle ''V'' Car 100,
           ParkVehicle ''V'' Car 101, LeaveVehicle ''V'' 200] parking_init)) = [] \<and>
   leaveVehicle ''V'' 300 (parking_run sample_ids
          [CreateParkingLot 1 1 [(Compact, 1)], ParkVehicle ''V'' Car 100,
           ParkVehicle ''V'' Car 101, LeaveVehicle ''V'' 200] parking_init)
     = (False, parking_run sample_ids
          [CreateParkingLot 1 1 [(Compact, 1)], ParkVehicle ''V'' Car 100,
           ParkVehicle ''V'' Car 101, LeaveVehicle ''V'' 200] parking_init)"
  by (intro conjI; code_simp)

text \<open>
  C8 (as the code has it). In a state reached by calls of the parking service from its
  initial state, with identifiers that do not repeat: when the repository's lookup finds
  the booking \<open>b\<close> of a vehicle, \<open>leaveVehicle\<close> returns true, \<open>b\<close> was stored and
  active, and afterwards the record is deleted: the bookings are the old ones with the
  entry of \<open>b\<close> erased, the vehicle's index entry is erased, and every booking still
  stored was stored before and has no leave time.
\<close>

theorem leave_deletes_record:
  assumes "inj gen" and "pst = parking_run gen calls parking_init"
    and "fst (findByVehicle v (bookingRepo pst)) = Some b"
  shows
   "fst (leaveVehicle v now pst) \<and>
    (pb_id b, b) \<in> set (bookings (bookingRepo pst)) \<and> pb_end b = None \<and>
    bookings (bookingRepo (snd (leaveVehicle v now pst)))
      = cmap_erase (pb_id b) (bookings (bookingRepo pst)) \<and>
    vehicleIndex (bookingRepo (snd (leaveVehicle v now pst)))
      = cmap_erase v (vehicleIndex (bookingRepo pst)) \<and>
    cmap_find (pb_id b) (bookings (bookingRepo (snd (leaveVehicle v now pst)))) = None \<and>
    (\<forall>e\<in>set (bookings (bookingRepo (snd (leaveVehicle v now pst)))).
       e \<in> set (bookings (bookingRepo pst)) \<and> fst e \<noteq> pb_id b \<and> pb_end (snd e) = None)"
proof -
  from assms have c: "repo_consistent gen pst" by (simp add: reachable_consistent)
  from assms(3) obtain i where i: "cmap_find v (vehicleIndex (bookingRepo pst)) = Some i"
    and bi: "cmap_find i (bookings (bookingRepo pst)) = Some b"
    by (auto simp: findByVehicle_consistent [OF c] split: option.splits)
  from leaveVehicle_present [OF c i, of now] bi
  have id: "pb_id b = i"
    and l: "leaveVehicle v now pst =
       (True, pst\<lparr>bookingRepo := (bookingRepo pst)
                   \<lparr>vehicleIndex := cmap_erase v (vehicleIndex (bookingRepo pst)),
                    bookings := cmap_erase i (bookings (bookingRepo pst))\<rparr>\<rparr>)"
    by auto
  from bi id have mem: "(pb_id b, b) \<in> set (bookings (bookingRepo pst))"
    by (simp add: cmap_find_in_set)
  with c have act: "pb_end b = None" unfolding repo_consistent_def by fastforce
  have rest: "\<forall>e\<in>set (bookings (bookingRepo (snd (leaveVehicle v now pst)))).
       e \<in> set (bookings (bookingRepo pst)) \<and> fst e \<noteq> pb_id b \<and> pb_end (snd e) = None"
  proof (rule ballI)
    fix e assume "e \<in> set (bookings (bookingRepo (snd (leaveVehicle v now pst))))"
    with l id have e: "e \<in> set (bookings (bookingRepo pst))" "fst e \<noteq> pb_id b"
      by (auto simp: cmap_erase_def)
    with c have "pb_end (snd e) = None" unfolding repo_consistent_def by blast
    with e show "e \<in> set (bookings (bookingRepo pst)) \<and> fst e \<noteq> pb_id b \<and> pb_end (snd e) = None"
      by simp
  qed
  from l id mem act rest show ?thesis by (simp add: cmap_find_erase)
qed

theorem leave_deletes_record_witness:
  "inj sample_ids \<and>
   fst (findByVehicle ''V'' (bookingRepo (parking_run sample_ids
          [CreateParkingLot 1 1 [(Compact, 1)], ParkVehicle ''V'' Car 100] parking_init)))
     = Some \<lparr>pb_id = ''id+++'', pb_spotId = ''id++'', pb_vehicleId = ''V'',
             pb_vehicleType = Car, pb_start = 100, pb_end = None\<rparr> \<and>
   fst (leaveVehicle ''V'' 200 (parking_run sample_ids
          [CreateParkingLot 1 1 [(Compact, 1)], ParkVehicle ''V'' Car 100] parking_init)) \<and>
   cmap_find ''id+++'' (bookings (bookingRepo (snd (leaveVehicle ''V'' 200 (parking_run sample_ids
          [CreateParkingLot 1 1 [(Compact, 1)], ParkVehicle ''V'' Car 100] parking_init))))) = None"
proof -
  let ?calls = "[CreateParkingLot 1 1 [(Compact, 1)], ParkVehicle ''V'' Car 100]"
  let ?pst = "parking_run sample_ids ?calls parking_init"
  let ?b = "\<lparr>pb_id = ''id+++'', pb_spotId = ''id++'', pb_vehicleId = ''V'',
             pb_vehicleType = Car, pb_start = 100, pb_end = None\<rparr>"
  have h: "fst (findByVehicle ''V'' (bookingRepo ?pst)) = Some ?b" by code_simp
  note th = leave_deletes_record [OF inj_sample_ids refl h, of 200]
  from th have a: "fst (leaveVehicle ''V'' 200 ?pst)" by (rule conjunct1)
  from th have "cmap_find (pb_id ?b) (bookings (bookingRepo (snd (leaveVehicle ''V'' 200 ?pst)))) = None"
    by blast
  then have b: "cmap_find ''id+++'' (bookings (bookingRepo (snd (leaveVehicle ''V'' 200 ?pst)))) = None"
    by (simp only: ParkingBooking.select_convs)
  from a b h inj_sample_ids show ?thesis by blast
qed

text \<open>
  C8 as stated fails: one compact spot, vehicle \<open>V\<close> parks and leaves. \<open>leaveVehicle\<close>
  returns true, the store held the booking before the call and holds nothing after it.
\<close>

theorem leave_retains_record_counterexample:
  "fst (leaveVehicle ''V'' 200 (parking_run sample_ids
          [CreateParkingLot 1 1 [(Compact, 1)], ParkVehicle ''V'' Car 100] parking_init)) \<and>
   bookings (bookingRepo (parking_run sample_ids
          [CreateParkingLot 1 1 [(Compact, 1)], ParkVehicle ''V'' Car 100] parking_init))
     = [(''id+++'', \<lparr>pb_id = ''id+++'', pb_spotId = ''id++'', pb_vehicleId = ''V'',
                     pb_vehicleType = Car, pb_start = 100, pb_end = None\<rparr>)] \<and>
   bookings (bookingRepo (snd (leaveVehicle ''V'' 200 (parking_run sample_ids
          [CreateParkingLot 1 1 [(Compact, 1)], ParkVehicle ''V'' Car 100] parking_init)))) = []"
  by (intro conjI; code_simp)

section \<open>Occupancy\<close>

text \<open>
  C2 at a failing input. A lot of one level with one compact spot \<open>id++\<close>; vehicle \<open>V\<close>,
  a car, parks and is given that spot (its booking is active). \<open>isOccupied\<close> of the spot
  still answers false and \<open>getAvailableSpots(Car)\<close> still lists it.
\<close>

theorem occupied_spot_reported_available:
  "fst (parkVehicle sample_ids ''V'' Car 100
         (snd (createParkingLot sample_ids 1 1 [(Compact, 1)] parking_init))) = Some ''id+++'' \<and>
   active_bookings ''id++'' (snd (parkVehicle sample_ids ''V'' Car 100
         (snd (createParkingLot sample_ids 1 1 [(Compact, 1)] parking_init))))
     = [\<lparr>pb_id = ''id+++'', pb_spotId = ''id++'', pb_vehicleId = ''V'',
         pb_vehicleType = Car, pb_start = 100, pb_end = None\<rparr>] \<and>
   fst (isOccupied ''id++'' (snd (parkVehicle sample_ids ''V'' Car 100
         (snd (createParkingLot sample_ids 1 1 [(Compact, 1)] parking_init))))) = False \<and>
   fst (getAvailableSpots Car (snd (parkVehicle sample_ids ''V'' Car 100
         (snd (createParkingLot sample_ids 1 1 [(Compact, 1)] parking_init))))) = Some [''id++'']"
  by (intro conjI; code_simp)

text \<open>
  C3 at a failing input. A freshly created lot with one compact spot; two cars park one
  after the other. Both bookings are stored for the one spot, both without leave time.
\<close>

theorem two_active_bookings_on_one_spot:
  "mutexes (parking_run sample_ids
      [CreateParkingLot 1 1 [(Compact, 1)], ParkVehicle ''V1'' Car 100, ParkVehicle ''V2'' Car 101]
      parking_init) = [(''id++'', ())] \<and>
   active_bookings ''id++'' (parking_run sample_ids
      [CreateParkingLot 1 1 [(Compact, 1)], ParkVehicle ''V1'' Car 100, ParkVehicle ''V2'' Car 101]
      parking_init)
     = [\<lparr>pb_id = ''id+++'', pb_spotId = ''id++'', pb_vehicleId = ''V1'',
         pb_vehicleType = Car, pb_start = 100, pb_end = None\<rparr>,
        \<lparr>pb_id = ''id++++'', pb_spotId = ''id++'', pb_vehicleId = ''V2'',
         pb_vehicleType = Car, pb_start = 101, pb_end = None\<rparr>]"
  by (intro conjI; code_simp)

section \<open>First fit\<close>

text \<open>The fit table, and (\<open>parkVehicle_first\<close> above) the spot \<open>parkVehicle\<close> takes.\<close>

lemma fits_table:
  "fits v s \<longleftrightarrow>
     v = Motorcycle \<or> (v = Car \<and> (s = Compact \<or> s = Large)) \<or> (v = Truck \<and> s = Large)"
  by (cases v) simp_all

text \<open>
  C6 at a failing input. A lot of one level with two compact spots, \<open>id++\<close> before
  \<open>id+++\<close> in iteration order. Car \<open>V1\<close> parks and gets \<open>id++\<close>; car \<open>V2\<close> parks next and
  gets \<open>id++\<close> again, which is not free, while the free compatible spot \<open>id+++\<close> stays
  without a booking.
\<close>

theorem first_fit_takes_occupied_spot:
  "map fst (mutexes (snd (createParkingLot sample_ids 1 2 [(Compact, 2)] parking_init)))
     = [''id++'', ''id+++''] \<and>
   fst (parkVehicle sample_ids ''V1'' Car 100
         (snd (createParkingLot sample_ids 1 2 [(Compact, 2)] parking_init))) = Some ''id++++'' \<and>
   fst (parkVehicle sample_ids ''V2'' Car 101
         (snd (parkVehicle sample_ids ''V1'' Car 100
           (snd (createParkingLot sample_ids 1 2 [(Compact, 2)] parking_init))))) = Some ''id+++++'' \<and>
   map pb_vehicleId (active_bookings ''id++''
       (snd (parkVehicle sample_ids ''V2'' Car 101
         (snd (parkVehicle sample_ids ''V1'' Car 100
           (snd (createParkingLot sample_ids 1 2 [(Compact, 2)] parking_init)))))))
     = [''V1'', ''V2''] \<and>
   active_bookings ''id+++''
       (snd (parkVehicle sample_ids ''V2'' Car 101
         (snd (parkVehicle sample_ids ''V1'' Car 100
           (snd (createParkingLot sample_ids 1 2 [(Compact, 2)] parking_init))))))
     = []"
  by (intro conjI; code_simp)


end
